theory Spec2Isabelle
  imports Main "HOL-Library.Char_ord" "HOL-Library.List_Lexorder" "HOL-Library.Product_Lexorder"
begin

section \<open>Python values and errors\<close>

text \<open>
  The functions of \<^verbatim>\<open>iword_frequency_analyzer.py\<close> are dynamically typed: they test
  their arguments with \<^verbatim>\<open>isinstance\<close> and raise. The values a caller can pass are
  modelled by \<open>pyval\<close>; a raised exception is the left summand of the result.
  A Python \<^verbatim>\<open>str\<close> is modelled as a \<open>string\<close>, the UTF-8 bytes of the text: the
  program only tests emptiness, matches the ASCII class \<^verbatim>\<open>[A-Za-z]\<close> and compares
  words made of ASCII letters, and the bytes of a non-ASCII code point are all outside
  that class.
\<close>

datatype pyval = PStr string | PInt int | PBool bool | PNone | PList "pyval list"

datatype py_error = TypeError string | ValueError string

text \<open>
  \<^verbatim>\<open>isinstance(v, str)\<close>, and the characters of a \<^verbatim>\<open>str\<close>; \<open>str_of\<close> is only
  applied behind the \<^verbatim>\<open>isinstance\<close> check.
\<close>

fun isinstance_str :: "pyval \<Rightarrow> bool" where
  "isinstance_str (PStr s) = True"
| "isinstance_str v = False"

fun str_of :: "pyval \<Rightarrow> string" where
  "str_of (PStr s) = s"
| "str_of v = []"

text \<open>
  \<^verbatim>\<open>isinstance(v, int)\<close>: \<^verbatim>\<open>bool\<close> is a subclass of \<^verbatim>\<open>int\<close> in Python, and
  \<^verbatim>\<open>True\<close> and \<^verbatim>\<open>False\<close> are the slice bounds 1 and 0; \<open>index_of\<close> is only
  applied behind the \<^verbatim>\<open>isinstance\<close> check.
\<close>

fun isinstance_int :: "pyval \<Rightarrow> bool" where
  "isinstance_int (PInt n) = True"
| "isinstance_int (PBool b) = True"
| "isinstance_int v = False"

fun index_of :: "pyval \<Rightarrow> int" where
  "index_of (PInt n) = n"
| "index_of (PBool b) = (if b then 1 else 0)"
| "index_of v = 0"

section \<open>The tokenizer\<close>

text \<open>The character class \<^verbatim>\<open>[A-Za-z]\<close> and its two halves.\<close>

definition is_ascii_upper :: "char \<Rightarrow> bool" where
  "is_ascii_upper c \<longleftrightarrow> CHR ''A'' \<le> c \<and> c \<le> CHR ''Z''"

definition is_ascii_lower :: "char \<Rightarrow> bool" where
  "is_ascii_lower c \<longleftrightarrow> CHR ''a'' \<le> c \<and> c \<le> CHR ''z''"

definition is_ascii_letter :: "char \<Rightarrow> bool" where
  "is_ascii_letter c \<longleftrightarrow>
     (CHR ''A'' \<le> c \<and> c \<le> CHR ''Z'') \<or> (CHR ''a'' \<le> c \<and> c \<le> CHR ''z'')"

text \<open>
  \<^verbatim>\<open>re.findall(r'[A-Za-z]+', text)\<close>: the scan tries a match at the current position;
  the greedy \<^verbatim>\<open>+\<close> takes the letters as far as they go and the scan resumes behind
  the match; where no match starts, the scan moves on by one character.
\<close>

function findall_letters :: "string \<Rightarrow> string list" where
  "findall_letters [] = []"
| "findall_letters (c # cs) =
     (if is_ascii_letter c
      then (c # takeWhile is_ascii_letter cs) # findall_letters (dropWhile is_ascii_letter cs)
      else findall_letters cs)"
  by pat_completeness auto
termination
  by (relation "measure length") (auto simp: length_dropWhile_le less_Suc_eq_le)

text \<open>
  \<^verbatim>\<open>str.lower()\<close>, on the ASCII range: it is only applied to the matches of
  \<open>findall_letters\<close>, which are ASCII letters.
\<close>

definition char_lower :: "char \<Rightarrow> char" where
  "char_lower c = (if is_ascii_upper c then char_of (of_char c + (32::nat)) else c)"

definition lower :: "string \<Rightarrow> string" where
  "lower s = map char_lower s"

definition extract_valid_words_from_text_and_convert_to_lower_case ::
  "pyval \<Rightarrow> py_error + string list" where
  "extract_valid_words_from_text_and_convert_to_lower_case text =
     (if \<not> isinstance_str text
      then Inl (TypeError ''Invalid input text: Input text should be a string'')
      else if str_of text = []
      then Inl (ValueError ''Invalid input text: Input text should not be empty'')
      else Inr (map lower (findall_letters (str_of text))))"

section \<open>The frequency map\<close>

text \<open>
  A \<^verbatim>\<open>Counter\<close> is a \<^verbatim>\<open>dict\<close>, which keeps its keys in the order of their first
  insertion: an association list. \<^verbatim>\<open>Counter(iterable)\<close> runs
  \<^verbatim>\<open>d[elem] = d.get(elem, 0) + 1\<close> over the elements.
\<close>

fun dict_get :: "('k \<times> 'v) list \<Rightarrow> 'k \<Rightarrow> 'v \<Rightarrow> 'v" where
  "dict_get [] k d = d"
| "dict_get ((k', v) # kvs) k d = (if k' = k then v else dict_get kvs k d)"

fun dict_set :: "('k \<times> 'v) list \<Rightarrow> 'k \<Rightarrow> 'v \<Rightarrow> ('k \<times> 'v) list" where
  "dict_set [] k v = [(k, v)]"
| "dict_set ((k', v') # kvs) k v =
     (if k' = k then (k', v) # kvs else (k', v') # dict_set kvs k v)"

definition count_elem :: "('k \<times> int) list \<Rightarrow> 'k \<Rightarrow> ('k \<times> int) list" where
  "count_elem d elem = dict_set d elem (dict_get d elem 0 + 1)"

definition Counter :: "'k list \<Rightarrow> ('k \<times> int) list" where
  "Counter elems = foldl count_elem [] elems"

text \<open>\<^verbatim>\<open>counter[key]\<close>: a missing key reads as 0 and raises nothing.\<close>

definition counter_getitem :: "('k \<times> int) list \<Rightarrow> 'k \<Rightarrow> int" where
  "counter_getitem d k = dict_get d k 0"

section \<open>Sorting and slicing\<close>

text \<open>
  \<^verbatim>\<open>sorted(xs, key=key, reverse=reverse)\<close> is a stable sort; with \<^verbatim>\<open>reverse\<close>
  the list is reversed, sorted and reversed again, so that equal keys keep their order.
  A key that is a tuple is compared lexicographically, and so is a \<^verbatim>\<open>str\<close>.
\<close>

definition sorted_py :: "('a \<Rightarrow> 'k::linorder) \<Rightarrow> bool \<Rightarrow> 'a list \<Rightarrow> 'a list" where
  "sorted_py key reverse xs =
     (if reverse then rev (sort_key key (rev xs)) else sort_key key xs)"

text \<open>
  \<^verbatim>\<open>xs[:n]\<close>: a negative bound counts from the end, and a bound outside the list is
  clipped to it.
\<close>

definition slice_to :: "'a list \<Rightarrow> int \<Rightarrow> 'a list" where
  "slice_to xs n =
     (if n < 0 then take (nat (int (length xs) + n)) xs else take (nat n) xs)"

section \<open>The three queries\<close>

definition calculate_highest_frequency :: "pyval \<Rightarrow> py_error + int" where
  "calculate_highest_frequency text =
     (case extract_valid_words_from_text_and_convert_to_lower_case text of
        Inl e \<Rightarrow> Inl e
      | Inr valid_words_list \<Rightarrow>
          let word_frequencies = Counter valid_words_list;
              sorted_word_frequencies = sorted_py snd True word_frequencies
          in (case sorted_word_frequencies of
                [] \<Rightarrow> Inr 0
              | first # _ \<Rightarrow> Inr (snd first)))"

definition calculate_frequency_for_word :: "pyval \<Rightarrow> pyval \<Rightarrow> py_error + int" where
  "calculate_frequency_for_word text word =
     (if \<not> isinstance_str word
      then Inl (TypeError ''Invalid input: word should be a string'')
      else
        (case extract_valid_words_from_text_and_convert_to_lower_case text of
           Inl e \<Rightarrow> Inl e
         | Inr valid_words_list \<Rightarrow>
             let word_frequencies = Counter valid_words_list
             in Inr (counter_getitem word_frequencies (str_of word))))"

definition calculate_most_frequent_n_words ::
  "pyval \<Rightarrow> pyval \<Rightarrow> py_error + (string \<times> int) list" where
  "calculate_most_frequent_n_words text n =
     (if \<not> isinstance_int n
      then Inl (TypeError ''Invalid input: n should be an integer'')
      else
        (case extract_valid_words_from_text_and_convert_to_lower_case text of
           Inl e \<Rightarrow> Inl e
         | Inr valid_words_list \<Rightarrow>
             let word_frequencies = Counter valid_words_list;
                 sorted_word_frequencies =
                   sorted_py (\<lambda>x. (- snd x, fst x)) False word_frequencies
             in Inr (slice_to sorted_word_frequencies (index_of n))))"

section \<open>Vocabulary of the properties\<close>

text \<open>The call raised \<^verbatim>\<open>ValueError\<close>, the EmptyInput error.\<close>

fun is_ValueError :: "py_error + 'a \<Rightarrow> bool" where
  "is_ValueError (Inl (ValueError m)) = True"
| "is_ValueError r = False"

text \<open>
  An occurrence of a word \<open>w\<close> in the text \<open>s\<close>, between the part \<open>p\<close> before it and
  the part \<open>q\<close> behind it, is a maximal run of letters when \<open>w\<close> is a non-empty
  sequence of ASCII letters that cannot be extended: no letter stands right before it
  and none right behind it.
\<close>

definition maximal_run :: "string \<Rightarrow> string \<times> string \<times> string \<Rightarrow> bool" where
  "maximal_run s d \<longleftrightarrow>
     (case d of (p, w, q) \<Rightarrow>
        s = p @ w @ q \<and> w \<noteq> [] \<and> (\<forall>c\<in>set w. is_ascii_letter c)
        \<and> (p = [] \<or> \<not> is_ascii_letter (last p))
        \<and> (q = [] \<or> \<not> is_ascii_letter (hd q)))"

text \<open>
  The scan of \<open>findall_letters\<close> with the position of every match kept, as
  \<^verbatim>\<open>re.finditer\<close> reports it: the text before the match, the match, the text behind
  it. The first argument is the text already scanned.
\<close>

function finditer_letters :: "string \<Rightarrow> string \<Rightarrow> (string \<times> string \<times> string) list" where
  "finditer_letters p [] = []"
| "finditer_letters p (c # cs) =
     (if is_ascii_letter c
      then (p, c # takeWhile is_ascii_letter cs, dropWhile is_ascii_letter cs)
             # finditer_letters (p @ c # takeWhile is_ascii_letter cs)
                 (dropWhile is_ascii_letter cs)
      else finditer_letters (p @ [c]) cs)"
  by pat_completeness auto
termination
  by (relation "measure (\<lambda>(p, r). length r)") (auto simp: length_dropWhile_le less_Suc_eq_le)

text \<open>
  The ranking of the top-N query: a higher count comes first, and among equal counts
  the lexicographically smaller word.
\<close>

definition ranks_before :: "string \<times> int \<Rightarrow> string \<times> int \<Rightarrow> bool" where
  "ranks_before x y \<longleftrightarrow> snd y < snd x \<or> (snd x = snd y \<and> fst x < fst y)"

text \<open>The sort call of \<open>calculate_most_frequent_n_words\<close>, before the slice.\<close>

definition ranking :: "(string \<times> int) list \<Rightarrow> (string \<times> int) list" where
  "ranking fm = sorted_py (\<lambda>x. (- snd x, fst x)) False fm"

section \<open>Facts about dictionaries and the counter\<close>

lemma dict_get_map_of:
  "dict_get d k v = (case map_of d k of None \<Rightarrow> v | Some c \<Rightarrow> c)"
  by (induction d) auto

lemma map_of_dict_set: "map_of (dict_set d k v) = (map_of d)(k \<mapsto> v)"
  by (induction d) (auto simp: fun_eq_iff)

lemma map_fst_dict_set:
  "map fst (dict_set d k v) = (if k \<in> fst ` set d then map fst d else map fst d @ [k])"
  by (induction d) force+

lemma distinct_dict_set: "distinct (map fst d) \<Longrightarrow> distinct (map fst (dict_set d k v))"
  by (simp add: map_fst_dict_set)

lemma sum_list_dict_set:
  "sum_list (map snd (dict_set d k (dict_get d k 0 + 1))) = sum_list (map snd d) + (1::int)"
  by (induction d) auto

lemma foldl_count_elem_get:
  "dict_get (foldl count_elem d elems) k 0 = dict_get d k 0 + int (count_list elems k)"
proof (induction elems arbitrary: d)
  case Nil
  show ?case by simp
next
  case (Cons e es)
  have "dict_get (count_elem d e) k 0 = dict_get d k 0 + (if e = k then 1 else 0)"
    by (simp add: count_elem_def dict_get_map_of map_of_dict_set)
  with Cons.IH [of "count_elem d e"] show ?case by simp
qed

lemma foldl_count_elem_keys:
  "set (map fst (foldl count_elem d elems)) = set (map fst d) \<union> set elems"
proof (induction elems arbitrary: d)
  case Nil
  show ?case by simp
next
  case (Cons e es)
  have "set (map fst (count_elem d e)) = insert e (set (map fst d))"
    by (auto simp: count_elem_def map_fst_dict_set)
  with Cons.IH [of "count_elem d e"] show ?case by auto
qed

lemma foldl_count_elem_distinct:
  "distinct (map fst d) \<Longrightarrow> distinct (map fst (foldl count_elem d elems))"
  by (induction elems arbitrary: d) (simp_all add: count_elem_def distinct_dict_set)

lemma foldl_count_elem_sum:
  "sum_list (map snd (foldl count_elem d elems)) = sum_list (map snd d) + int (length elems)"
proof (induction elems arbitrary: d)
  case Nil
  show ?case by simp
next
  case (Cons e es)
  from Cons.IH [of "count_elem d e"] show ?case
    by (simp add: count_elem_def sum_list_dict_set)
qed

lemma Counter_get: "dict_get (Counter elems) k 0 = int (count_list elems k)"
  by (simp add: Counter_def foldl_count_elem_get)

lemma Counter_keys: "set (map fst (Counter elems)) = set elems"
  using foldl_count_elem_keys [of "[]" elems] by (simp add: Counter_def)

lemma Counter_distinct: "distinct (map fst (Counter elems))"
  by (simp add: Counter_def foldl_count_elem_distinct)

lemma Counter_sum: "sum_list (map snd (Counter elems)) = int (length elems)"
  by (simp add: Counter_def foldl_count_elem_sum)

lemma Counter_entry:
  assumes "(k, c) \<in> set (Counter elems)"
  shows "c = int (count_list elems k)" and "k \<in> set elems" and "1 \<le> c"
proof -
  from assms have "map_of (Counter elems) k = Some c"
    using Counter_distinct [of elems] by simp
  then have "dict_get (Counter elems) k 0 = c"
    by (simp add: dict_get_map_of)
  then show c: "c = int (count_list elems k)"
    by (simp add: Counter_get)
  from assms have "k \<in> set (map fst (Counter elems))"
    by force
  then show k: "k \<in> set elems"
    by (simp only: Counter_keys)
  then have "0 < count_list elems k"
    using count_list_0_iff [of elems k] by auto
  with c show "1 \<le> c" by simp
qed

lemma Counter_Nil_iff: "Counter elems = [] \<longleftrightarrow> elems = []"
proof -
  have "Counter elems = [] \<longleftrightarrow> set (map fst (Counter elems)) = {}"
    by simp
  then show ?thesis by (simp only: Counter_keys set_empty)
qed

lemma Counter_length: "length (Counter elems) = card (set elems)"
proof -
  have "length (Counter elems) = length (map fst (Counter elems))"
    by simp
  also have "\<dots> = card (set (map fst (Counter elems)))"
    by (rule distinct_card [symmetric]) (rule Counter_distinct)
  finally show ?thesis
    by (simp only: Counter_keys)
qed

lemma Counter_distinct_pairs: "distinct (Counter elems)"
  using Counter_distinct [of elems] by (simp add: distinct_map)

section \<open>Facts about the tokenizer\<close>

lemma findall_letters_Nil_iff:
  "findall_letters s = [] \<longleftrightarrow> (\<forall>c\<in>set s. \<not> is_ascii_letter c)"
  by (induction s rule: findall_letters.induct) auto

lemma findall_letters_word:
  "w \<in> set (findall_letters s) \<Longrightarrow> w \<noteq> [] \<and> (\<forall>c\<in>set w. is_ascii_letter c)"
proof (induction s rule: findall_letters.induct)
  case 1
  then show ?case by simp
next
  case (2 c cs)
  show ?case
  proof (cases "is_ascii_letter c")
    case True
    with 2 have "w = c # takeWhile is_ascii_letter cs
        \<or> w \<in> set (findall_letters (dropWhile is_ascii_letter cs))"
      by simp
    then show ?thesis
    proof
      assume "w = c # takeWhile is_ascii_letter cs"
      with True show ?thesis by (auto dest: set_takeWhileD)
    next
      assume "w \<in> set (findall_letters (dropWhile is_ascii_letter cs))"
      with True 2 show ?thesis by blast
    qed
  next
    case False
    with 2 show ?thesis by simp
  qed
qed

lemma of_char_lower:
  "is_ascii_upper c \<Longrightarrow> of_char (char_lower c) = of_char c + (32::nat)"
  by (simp add: char_lower_def is_ascii_upper_def less_eq_char_def)

lemma char_lower_letter: "is_ascii_letter c \<Longrightarrow> is_ascii_lower (char_lower c)"
proof (cases "is_ascii_upper c")
  case True
  then have "of_char (char_lower c) = of_char c + (32::nat)"
    by (rule of_char_lower)
  with True show ?thesis
    by (simp add: is_ascii_lower_def is_ascii_upper_def less_eq_char_def)
next
  case False
  assume "is_ascii_letter c"
  with False show ?thesis
    by (auto simp add: is_ascii_letter_def is_ascii_lower_def is_ascii_upper_def char_lower_def)
qed

lemma is_ascii_upper_code:
  "is_ascii_upper c \<longleftrightarrow> 65 \<le> (of_char c :: nat) \<and> (of_char c :: nat) \<le> 90"
  by (simp add: is_ascii_upper_def less_eq_char_def)

lemma of_char_char_lower:
  "(of_char (char_lower c) :: nat) =
     (if 65 \<le> (of_char c :: nat) \<and> (of_char c :: nat) \<le> 90 then of_char c + 32
      else of_char c)"
proof (cases "is_ascii_upper c")
  case True
  then have "of_char (char_lower c) = of_char c + (32::nat)"
    by (rule of_char_lower)
  with True show ?thesis
    by (simp add: is_ascii_upper_code)
next
  case False
  then have "char_lower c = c"
    by (simp add: char_lower_def)
  with False show ?thesis
    by (simp add: is_ascii_upper_code)
qed

lemma not_lower_and_upper: "is_ascii_upper c \<Longrightarrow> \<not> is_ascii_lower c"
  by (simp add: is_ascii_lower_def is_ascii_upper_def less_eq_char_def)

lemma extract_str:
  "extract_valid_words_from_text_and_convert_to_lower_case (PStr s) =
     (if s = [] then Inl (ValueError ''Invalid input text: Input text should not be empty'')
      else Inr (map lower (findall_letters s)))"
  by (simp add: extract_valid_words_from_text_and_convert_to_lower_case_def)

lemma extract_not_str:
  "\<not> isinstance_str input \<Longrightarrow>
     extract_valid_words_from_text_and_convert_to_lower_case input =
       Inl (TypeError ''Invalid input text: Input text should be a string'')"
  by (simp add: extract_valid_words_from_text_and_convert_to_lower_case_def)

lemma extract_empty:
  "extract_valid_words_from_text_and_convert_to_lower_case (PStr []) =
     Inl (ValueError ''Invalid input text: Input text should not be empty'')"
  by (simp add: extract_str)

lemma extracted_word:
  assumes "w \<in> set (map lower (findall_letters s))"
  shows "w \<noteq> [] \<and> (\<forall>c\<in>set w. is_ascii_lower c)"
proof -
  from assms obtain v where v: "v \<in> set (findall_letters s)" and w: "w = lower v"
    by auto
  from v have "v \<noteq> [] \<and> (\<forall>c\<in>set v. is_ascii_letter c)"
    by (rule findall_letters_word)
  with w show ?thesis
    by (simp add: lower_def char_lower_letter)
qed

section \<open>The matches are the maximal runs\<close>

text \<open>
  Every match of the scan is a maximal run of the whole text, the matches come in text
  order with a separator between two of them, and every maximal run is matched.
\<close>

lemma finditer_matches: "map (\<lambda>(p, w, q). w) (finditer_letters p r) = findall_letters r"
  by (induction p r rule: finditer_letters.induct) simp_all

lemma finditer_start:
  "d \<in> set (finditer_letters p r) \<Longrightarrow> length p \<le> length (fst d)"
proof (induction p r rule: finditer_letters.induct)
  case (1 p)
  then show ?case by simp
next
  case (2 p c cs)
  show ?case
  proof (cases "is_ascii_letter c")
    case True
    with "2.prems" have "d = (p, c # takeWhile is_ascii_letter cs, dropWhile is_ascii_letter cs)
        \<or> d \<in> set (finditer_letters (p @ c # takeWhile is_ascii_letter cs)
                      (dropWhile is_ascii_letter cs))"
      by simp
    then show ?thesis
    proof
      assume "d = (p, c # takeWhile is_ascii_letter cs, dropWhile is_ascii_letter cs)"
      then show ?thesis by simp
    next
      assume "d \<in> set (finditer_letters (p @ c # takeWhile is_ascii_letter cs)
          (dropWhile is_ascii_letter cs))"
      with True have "length (p @ c # takeWhile is_ascii_letter cs) \<le> length (fst d)"
        by (rule "2.IH"(1))
      then show ?thesis by simp
    qed
  next
    case False
    with "2.prems" have "d \<in> set (finditer_letters (p @ [c]) cs)"
      by simp
    with False have "length (p @ [c]) \<le> length (fst d)"
      by (rule "2.IH"(2))
    then show ?thesis by simp
  qed
qed

lemma finditer_start_after_separator:
  assumes "d \<in> set (finditer_letters p r)" and "r = [] \<or> \<not> is_ascii_letter (hd r)"
  shows "length p < length (fst d)"
proof (cases r)
  case Nil
  with assms(1) show ?thesis by simp
next
  case (Cons c cs)
  with assms have "d \<in> set (finditer_letters (p @ [c]) cs)"
    by simp
  then have "length (p @ [c]) \<le> length (fst d)"
    by (rule finditer_start)
  then show ?thesis by simp
qed

lemma dropWhile_boundary: "dropWhile P xs = [] \<or> \<not> P (hd (dropWhile P xs))"
  using hd_dropWhile [of P xs] by blast

lemma finditer_sound:
  assumes "d \<in> set (finditer_letters p r)"
    and "p = [] \<or> \<not> is_ascii_letter (last p) \<or> r = [] \<or> \<not> is_ascii_letter (hd r)"
  shows "maximal_run (p @ r) d"
  using assms
proof (induction p r rule: finditer_letters.induct)
  case (1 p)
  then show ?case by simp
next
  case (2 p c cs)
  let ?w = "c # takeWhile is_ascii_letter cs"
  let ?q = "dropWhile is_ascii_letter cs"
  show ?case
  proof (cases "is_ascii_letter c")
    case True
    have whole: "p @ c # cs = p @ ?w @ ?q"
      by simp
    from True "2.prems"(1) have "d = (p, ?w, ?q) \<or> d \<in> set (finditer_letters (p @ ?w) ?q)"
      by simp
    then show ?thesis
    proof
      assume d: "d = (p, ?w, ?q)"
      from True "2.prems"(2) have "p = [] \<or> \<not> is_ascii_letter (last p)"
        by simp
      moreover from True have "\<forall>x\<in>set ?w. is_ascii_letter x"
        by (auto dest: set_takeWhileD)
      moreover have "?q = [] \<or> \<not> is_ascii_letter (hd ?q)"
        by (rule dropWhile_boundary)
      ultimately show ?thesis
        unfolding maximal_run_def d by (simp only: whole prod.case) simp
    next
      assume "d \<in> set (finditer_letters (p @ ?w) ?q)"
      moreover have "p @ ?w = [] \<or> \<not> is_ascii_letter (last (p @ ?w))
          \<or> ?q = [] \<or> \<not> is_ascii_letter (hd ?q)"
        using dropWhile_boundary [of is_ascii_letter cs] by blast
      ultimately have "maximal_run ((p @ ?w) @ ?q) d"
        using True by (rule "2.IH"(1) [rotated])
      then show ?thesis by simp
    qed
  next
    case False
    with "2.prems"(1) have "d \<in> set (finditer_letters (p @ [c]) cs)"
      by simp
    moreover from False have "p @ [c] = [] \<or> \<not> is_ascii_letter (last (p @ [c]))
        \<or> cs = [] \<or> \<not> is_ascii_letter (hd cs)"
      by simp
    ultimately have "maximal_run ((p @ [c]) @ cs) d"
      using False by (rule "2.IH"(2) [rotated])
    then show ?thesis by simp
  qed
qed

lemma finditer_sorted:
  "sorted_wrt (\<lambda>d d'. length (fst d) + length (fst (snd d)) < length (fst d'))
     (finditer_letters p r)"
proof (induction p r rule: finditer_letters.induct)
  case (1 p)
  show ?case by simp
next
  case (2 p c cs)
  let ?w = "c # takeWhile is_ascii_letter cs"
  let ?q = "dropWhile is_ascii_letter cs"
  show ?case
  proof (cases "is_ascii_letter c")
    case True
    have "\<forall>d'\<in>set (finditer_letters (p @ ?w) ?q). length p + length ?w < length (fst d')"
    proof
      fix d'
      assume "d' \<in> set (finditer_letters (p @ ?w) ?q)"
      then have "length (p @ ?w) < length (fst d')"
        using dropWhile_boundary by (rule finditer_start_after_separator)
      then show "length p + length ?w < length (fst d')"
        by simp
    qed
    with True "2.IH"(1) show ?thesis by simp
  next
    case False
    with "2.IH"(2) show ?thesis by simp
  qed
qed

lemma takeWhile_run:
  assumes "\<forall>c\<in>set w. P c" and "q = [] \<or> \<not> P (hd q)"
  shows "takeWhile P (w @ q) = w" and "dropWhile P (w @ q) = q"
proof -
  from assms(2) have "takeWhile P q = []"
    by (cases q) auto
  with assms(1) show "takeWhile P (w @ q) = w"
    by (simp add: takeWhile_append2)
  from assms(2) have "dropWhile P q = q"
    by (cases q) auto
  with assms(1) show "dropWhile P (w @ q) = q"
    by (simp add: dropWhile_append2)
qed

lemma finditer_complete:
  assumes "r = u @ w @ q" and "w \<noteq> []" and "\<forall>c\<in>set w. is_ascii_letter c"
    and "p @ u = [] \<or> \<not> is_ascii_letter (last (p @ u))"
    and "q = [] \<or> \<not> is_ascii_letter (hd q)"
  shows "(p @ u, w, q) \<in> set (finditer_letters p r)"
  using assms
proof (induction p r arbitrary: u rule: finditer_letters.induct)
  case (1 p)
  then show ?case by simp
next
  case (2 p c cs)
  let ?w = "c # takeWhile is_ascii_letter cs"
  let ?q = "dropWhile is_ascii_letter cs"
  note w = "2.prems"(2,3) and q = "2.prems"(5)
  show ?case
  proof (cases "is_ascii_letter c")
    case True
    show ?thesis
    proof (cases "u = []")
      case u: True
      with "2.prems"(1) have r: "c # cs = w @ q"
        by simp
      have "takeWhile is_ascii_letter (c # cs) = w"
        unfolding r using w(2) q by (rule takeWhile_run)
      with True have "?w = w"
        by simp
      moreover have "dropWhile is_ascii_letter (c # cs) = q"
        unfolding r using w(2) q by (rule takeWhile_run)
      with True have "?q = q"
        by simp
      ultimately show ?thesis
        using True u by simp
    next
      case u: False
      with "2.prems"(4) have sep: "\<not> is_ascii_letter (last u)"
        by simp
      from u have "last u \<in> set u"
        by simp
      with sep have tw: "takeWhile is_ascii_letter (u @ w @ q) = takeWhile is_ascii_letter u"
        and dw: "dropWhile is_ascii_letter (u @ w @ q) =
          dropWhile is_ascii_letter u @ w @ q"
        by (simp_all add: takeWhile_append1 dropWhile_append1)
      from tw True "2.prems"(1) have w0: "?w = takeWhile is_ascii_letter u"
        by (metis takeWhile.simps(2))
      from dw True "2.prems"(1) have q0: "?q = dropWhile is_ascii_letter u @ w @ q"
        by (metis dropWhile.simps(2))
      have u_split: "u = ?w @ dropWhile is_ascii_letter u"
        by (simp only: w0 takeWhile_dropWhile_id)
      have pu: "p @ u = (p @ ?w) @ dropWhile is_ascii_letter u"
        by (subst u_split) simp
      have left: "(p @ ?w) @ dropWhile is_ascii_letter u = []
          \<or> \<not> is_ascii_letter (last ((p @ ?w) @ dropWhile is_ascii_letter u))"
        using "2.prems"(4) by (simp only: pu)
      from True q0 w left q
      have "((p @ ?w) @ dropWhile is_ascii_letter u, w, q) \<in> set (finditer_letters (p @ ?w) ?q)"
        by (rule "2.IH"(1))
      then have "(p @ u, w, q) \<in> set (finditer_letters (p @ ?w) ?q)"
        by (simp only: pu)
      with True show ?thesis by simp
    qed
  next
    case False
    have "u \<noteq> []"
    proof
      assume "u = []"
      with "2.prems"(1) w(1) have "c = hd w"
        by (cases w) auto
      with w have "is_ascii_letter c"
        by simp
      with False show False ..
    qed
    then obtain u' where u: "u = c # u'" and cs: "cs = u' @ w @ q"
      using "2.prems"(1) by (cases u) auto
    have eq: "p @ u = (p @ [c]) @ u'"
      by (simp add: u)
    with "2.prems"(4) have "(p @ [c]) @ u' = [] \<or> \<not> is_ascii_letter (last ((p @ [c]) @ u'))"
      by simp
    with False cs w have "((p @ [c]) @ u', w, q) \<in> set (finditer_letters (p @ [c]) cs)"
      using q by (rule "2.IH"(2))
    with eq False show ?thesis by simp
  qed
qed

lemma finditer_maximal_runs: "set (finditer_letters [] s) = {d. maximal_run s d}"
proof (intro equalityI subsetI)
  fix d
  assume "d \<in> set (finditer_letters [] s)"
  then have "maximal_run ([] @ s) d"
    by (rule finditer_sound) simp
  then show "d \<in> {d. maximal_run s d}"
    by simp
next
  fix d
  assume "d \<in> {d. maximal_run s d}"
  then obtain p w q where d: "d = (p, w, q)" and s: "s = p @ w @ q" and w: "w \<noteq> []"
    and letters: "\<forall>c\<in>set w. is_ascii_letter c"
    and left: "p = [] \<or> \<not> is_ascii_letter (last p)"
    and right: "q = [] \<or> \<not> is_ascii_letter (hd q)"
    by (cases d) (auto simp: maximal_run_def)
  from left have "[] @ p = [] \<or> \<not> is_ascii_letter (last ([] @ p))"
    by simp
  with s w letters have "([] @ p, w, q) \<in> set (finditer_letters [] s)"
    using right by (rule finditer_complete)
  with d show "d \<in> set (finditer_letters [] s)"
    by simp
qed

section \<open>Facts about sorting and slicing\<close>

lemma sorted_last_Max:
  fixes xs :: "'a::linorder list"
  assumes "sorted xs" and "xs \<noteq> []"
  shows "last xs = Max (set xs)"
proof -
  from assms(2) have split: "xs = butlast xs @ [last xs]"
    by simp
  with assms(1) have "sorted (butlast xs @ [last xs])"
    by simp
  then have "\<forall>y\<in>set (butlast xs). y \<le> last xs"
    by (simp add: sorted_append)
  moreover have "set xs = insert (last xs) (set (butlast xs))"
    by (subst split) simp
  ultimately have "\<forall>y\<in>set xs. y \<le> last xs"
    by auto
  moreover from assms(2) have "last xs \<in> set xs"
    by simp
  ultimately show ?thesis
    by (intro Max_eqI [symmetric]) auto
qed

lemma head_of_reverse_sorted:
  fixes fm :: "('k \<times> int) list"
  shows "(case sorted_py snd True fm of [] \<Rightarrow> Inr 0 | first # _ \<Rightarrow> Inr (snd first)) =
     (Inr (if fm = [] then 0 else Max (snd ` set fm)) :: py_error + int)"
proof (cases "fm = []")
  case True
  then show ?thesis by (simp add: sorted_py_def)
next
  case False
  define L where "L = sort_key snd (rev fm)"
  from False have ne: "L \<noteq> []"
    by (metis L_def length_sort length_rev length_0_conv)
  then have r: "rev L = last L # rev (butlast L)"
    by (metis append_butlast_last_id rev_eq_Cons_iff rev_rev_ident)
  have py: "sorted_py snd True fm = rev L"
    by (simp add: sorted_py_def L_def)
  have "(case sorted_py snd True fm of [] \<Rightarrow> Inr 0 | first # _ \<Rightarrow> Inr (snd first)) =
      (Inr (snd (last L)) :: py_error + int)"
    by (simp only: py r list.case)
  moreover have "snd (last L) = last (map snd L)"
    using ne by (simp add: last_map)
  moreover have "last (map snd L) = Max (set (map snd L))"
    using ne by (intro sorted_last_Max) (simp_all add: L_def)
  moreover have "set (map snd L) = snd ` set fm"
    by (simp add: L_def)
  ultimately show ?thesis
    using False by simp
qed

lemma set_ranking: "set (ranking fm) = set fm"
  by (simp add: ranking_def sorted_py_def)

lemma length_ranking: "length (ranking fm) = length fm"
  by (simp add: ranking_def sorted_py_def)

lemma distinct_ranking: "distinct (ranking fm) = distinct fm"
  by (simp add: ranking_def sorted_py_def)

lemma distinct_keys_ranking:
  "distinct (map fst fm) \<Longrightarrow> distinct (map fst (ranking fm))"
  by (simp add: distinct_map set_ranking distinct_ranking)

lemma sorted_ranking:
  assumes "distinct fm"
  shows "sorted_wrt ranks_before (ranking fm)"
proof -
  let ?key = "\<lambda>x :: string \<times> int. (- snd x, fst x)"
  let ?L = "sort_key ?key fm"
  have "inj_on ?key (set ?L)"
    by (auto simp: inj_on_def prod_eq_iff)
  with assms have "distinct (map ?key ?L)"
    by (simp add: distinct_map)
  moreover have "sorted (map ?key ?L)"
    by (rule sorted_sort_key)
  ultimately have "sorted_wrt (<) (map ?key ?L)"
    by (simp add: strict_sorted_iff)
  then have "sorted_wrt (\<lambda>x y. ?key x < ?key y) ?L"
    by (simp add: sorted_wrt_map)
  then have "sorted_wrt ranks_before ?L"
    by (rule sorted_wrt_mono_rel [rotated]) (auto simp: ranks_before_def)
  then show ?thesis
    by (simp add: ranking_def sorted_py_def)
qed

lemma slice_to_take:
  "slice_to xs n = take (if 0 \<le> n then nat n else length xs - nat (- n)) xs"
proof (cases "0 \<le> n")
  case True
  then show ?thesis by (simp add: slice_to_def)
next
  case False
  then have "nat (int (length xs) + n) = length xs - nat (- n)"
    by linarith
  with False show ?thesis by (simp add: slice_to_def)
qed

section \<open>The queries on a string\<close>

lemma highest_frequency_str:
  "s \<noteq> [] \<Longrightarrow> calculate_highest_frequency (PStr s) =
     Inr (if Counter (map lower (findall_letters s)) = [] then 0
          else Max (snd ` set (Counter (map lower (findall_letters s)))))"
  by (simp only: calculate_highest_frequency_def extract_str if_False sum.case Let_def
      head_of_reverse_sorted)

lemma frequency_for_word_str:
  "s \<noteq> [] \<Longrightarrow> calculate_frequency_for_word (PStr s) (PStr w) =
     Inr (int (count_list (map lower (findall_letters s)) w))"
  by (simp add: calculate_frequency_for_word_def extract_str counter_getitem_def Counter_get)

lemma most_frequent_n_words_int:
  "s \<noteq> [] \<Longrightarrow> isinstance_int n \<Longrightarrow> calculate_most_frequent_n_words (PStr s) n =
     Inr (slice_to (ranking (Counter (map lower (findall_letters s)))) (index_of n))"
  by (simp add: calculate_most_frequent_n_words_def extract_str ranking_def)

lemma most_frequent_n_words_str:
  "s \<noteq> [] \<Longrightarrow> calculate_most_frequent_n_words (PStr s) (PInt n) =
     Inr (slice_to (ranking (Counter (map lower (findall_letters s)))) n)"
  by (simp add: calculate_most_frequent_n_words_def extract_str ranking_def)

lemma highest_frequency_ValueError:
  "is_ValueError (calculate_highest_frequency input) \<longleftrightarrow> input = PStr []"
proof (cases "isinstance_str input")
  case False
  then have "input \<noteq> PStr []" by auto
  with False show ?thesis
    by (simp add: calculate_highest_frequency_def extract_not_str)
next
  case True
  then obtain s where s: "input = PStr s"
    by (cases input) auto
  show ?thesis
  proof (cases "s = []")
    case True
    with s show ?thesis
      by (simp add: calculate_highest_frequency_def extract_empty)
  next
    case False
    with s show ?thesis
      by (simp add: highest_frequency_str)
  qed
qed

lemma frequency_for_word_ValueError:
  "is_ValueError (calculate_frequency_for_word input word) \<longleftrightarrow>
     input = PStr [] \<and> isinstance_str word"
proof (cases "isinstance_str word")
  case False
  then show ?thesis
    by (simp add: calculate_frequency_for_word_def)
next
  case True
  then obtain w where w: "word = PStr w"
    by (cases word) auto
  show ?thesis
  proof (cases "isinstance_str input")
    case False
    then have "input \<noteq> PStr []" by auto
    with False w show ?thesis
      by (simp add: calculate_frequency_for_word_def extract_not_str)
  next
    case True
    then obtain s where s: "input = PStr s"
      by (cases input) auto
    show ?thesis
    proof (cases "s = []")
      case True
      with s w show ?thesis
        by (simp add: calculate_frequency_for_word_def extract_empty)
    next
      case False
      with s w show ?thesis
        by (simp add: frequency_for_word_str)
    qed
  qed
qed

lemma most_frequent_n_words_ValueError:
  "is_ValueError (calculate_most_frequent_n_words input n) \<longleftrightarrow>
     input = PStr [] \<and> isinstance_int n"
proof (cases "isinstance_int n")
  case False
  then show ?thesis
    by (simp add: calculate_most_frequent_n_words_def)
next
  case n: True
  show ?thesis
  proof (cases "isinstance_str input")
    case False
    then have "input \<noteq> PStr []" by auto
    with False n show ?thesis
      by (simp add: calculate_most_frequent_n_words_def extract_not_str)
  next
    case True
    then obtain s where s: "input = PStr s"
      by (cases input) auto
    show ?thesis
    proof (cases "s = []")
      case True
      with s n show ?thesis
        by (simp add: calculate_most_frequent_n_words_def extract_empty)
    next
      case False
      with s n show ?thesis
        by (simp add: most_frequent_n_words_int)
    qed
  qed
qed

section \<open>The claims\<close>

subsection \<open>Ranked output\<close>




subsection \<open>Tokenizer\<close>

text \<open>
  C2: for every non-empty text the tokenizer returns exactly the maximal runs of ASCII
  letters of the text, each once, in text order, each lowercased by \<open>lower\<close>. The
  occurrences \<open>ds\<close> behind the returned words are all the maximal runs of the text and
  nothing else, each ends before the next one starts, and a returned word has the length
  of its run and holds lowercase ASCII letters only: no non-letter character of the text
  is part of a word, and none joins two runs. The conversion is pinned character by
  character: an uppercase letter (code 65 to 90) becomes the character 32 codes above
  it, and every other letter of the run is unchanged.
\<close>

theorem extract_words_are_maximal_runs:
  assumes "s \<noteq> []"
  shows "\<exists>ds. extract_valid_words_from_text_and_convert_to_lower_case (PStr s) =
         Inr (map (\<lambda>(p, w, q). lower w) ds)
     \<and> set ds = {d. maximal_run s d}
     \<and> sorted_wrt (\<lambda>d d'. length (fst d) + length (fst (snd d)) < length (fst d')) ds
     \<and> (\<forall>(p, w, q)\<in>set ds. length (lower w) = length w
           \<and> (\<forall>c\<in>set (lower w). is_ascii_lower c))
     \<and> (\<forall>(p, w, q)\<in>set ds. \<forall>i<length w.
           (of_char (lower w ! i) :: nat) =
             (if 65 \<le> (of_char (w ! i) :: nat) \<and> (of_char (w ! i) :: nat) \<le> 90
              then of_char (w ! i) + 32 else of_char (w ! i)))"
proof (intro exI conjI)
  let ?ds = "finditer_letters [] s"
  have "map lower (findall_letters s) = map lower (map (\<lambda>(p, w, q). w) ?ds)"
    by (simp only: finditer_matches)
  also have "\<dots> = map (\<lambda>(p, w, q). lower w) ?ds"
    by (simp add: case_prod_unfold comp_def)
  finally show "extract_valid_words_from_text_and_convert_to_lower_case (PStr s) =
      Inr (map (\<lambda>(p, w, q). lower w) ?ds)"
    using assms by (simp add: extract_str)
  show "set ?ds = {d. maximal_run s d}"
    by (rule finditer_maximal_runs)
  show "sorted_wrt (\<lambda>d d'. length (fst d) + length (fst (snd d)) < length (fst d')) ?ds"
    by (rule finditer_sorted)
  show "\<forall>(p, w, q)\<in>set ?ds. length (lower w) = length w
      \<and> (\<forall>c\<in>set (lower w). is_ascii_lower c)"
  proof (clarify, intro conjI)
    fix p w q
    assume "(p, w, q) \<in> set ?ds"
    then have "maximal_run s (p, w, q)"
      by (simp add: finditer_maximal_runs)
    then have "\<forall>c\<in>set w. is_ascii_letter c"
      by (simp add: maximal_run_def)
    then show "\<forall>c\<in>set (lower w). is_ascii_lower c"
      by (simp add: lower_def char_lower_letter)
    show "length (lower w) = length w"
      by (simp add: lower_def)
  qed
  show "\<forall>(p, w, q)\<in>set ?ds. \<forall>i<length w.
      (of_char (lower w ! i) :: nat) =
        (if 65 \<le> (of_char (w ! i) :: nat) \<and> (of_char (w ! i) :: nat) \<le> 90
         then of_char (w ! i) + 32 else of_char (w ! i))"
  proof (clarify)
    fix p w q :: string and i :: nat
    assume "i < length w"
    then have "lower w ! i = char_lower (w ! i)"
      by (simp add: lower_def)
    then show "(of_char (lower w ! i) :: nat) =
        (if 65 \<le> (of_char (w ! i) :: nat) \<and> (of_char (w ! i) :: nat) \<le> 90
         then of_char (w ! i) + 32 else of_char (w ! i))"
      by (simp only: of_char_char_lower)
  qed
qed

theorem extract_words_are_maximal_runs_witness:
  "''ab1C'' \<noteq> []
   \<and> maximal_run ''ab1C'' ([] :: string, ''ab'', ''1C'')
   \<and> maximal_run ''ab1C'' (''ab1'', ''C'', [] :: string)
   \<and> extract_valid_words_from_text_and_convert_to_lower_case (PStr ''ab1C'') =
       Inr [''ab'', ''c'']
   \<and> (\<exists>ds. extract_valid_words_from_text_and_convert_to_lower_case (PStr ''ab1C'') =
         Inr (map (\<lambda>(p, w, q). lower w) ds)
       \<and> ([] :: string, ''ab'', ''1C'') \<in> set ds
       \<and> (''ab1'', ''C'', [] :: string) \<in> set ds
       \<and> length (lower ''ab'') = length ''ab'')
   \<and> (0 :: nat) < length ''C''
   \<and> (of_char (lower ''C'' ! 0) :: nat) = of_char (''C'' ! 0) + 32
   \<and> (of_char (lower ''ab'' ! 0) :: nat) = of_char (''ab'' ! 0)"
proof (intro conjI)
  show h: "''ab1C'' \<noteq> []" by simp
  show m: "maximal_run ''ab1C'' ([] :: string, ''ab'', ''1C'')"
    by (simp add: maximal_run_def is_ascii_letter_def)
  show m': "maximal_run ''ab1C'' (''ab1'', ''C'', [] :: string)"
    by (simp add: maximal_run_def is_ascii_letter_def)
  show "extract_valid_words_from_text_and_convert_to_lower_case (PStr ''ab1C'') =
      Inr [''ab'', ''c'']"
    by code_simp
  show pos: "(0 :: nat) < length ''C''" by simp
  from extract_words_are_maximal_runs [OF h] obtain ds
    where e: "extract_valid_words_from_text_and_convert_to_lower_case (PStr ''ab1C'') =
        Inr (map (\<lambda>(p, w, q). lower w) ds)"
      and runs: "set ds = {d. maximal_run ''ab1C'' d}"
      and low: "\<forall>(p, w, q)\<in>set ds. length (lower w) = length w
          \<and> (\<forall>c\<in>set (lower w). is_ascii_lower c)"
      and code: "\<forall>(p, w, q)\<in>set ds. \<forall>i<length w.
          (of_char (lower w ! i) :: nat) =
            (if 65 \<le> (of_char (w ! i) :: nat) \<and> (of_char (w ! i) :: nat) \<le> 90
             then of_char (w ! i) + 32 else of_char (w ! i))"
    by blast
  from runs m have mem: "([] :: string, ''ab'', ''1C'') \<in> set ds"
    by simp
  from runs m' have mem': "(''ab1'', ''C'', [] :: string) \<in> set ds"
    by simp
  from low [rule_format, OF mem] have len: "length (lower ''ab'') = length ''ab''"
    by (simp only: prod.case)
  show "\<exists>ds. extract_valid_words_from_text_and_convert_to_lower_case (PStr ''ab1C'') =
         Inr (map (\<lambda>(p, w, q). lower w) ds)
       \<and> ([] :: string, ''ab'', ''1C'') \<in> set ds
       \<and> (''ab1'', ''C'', [] :: string) \<in> set ds
       \<and> length (lower ''ab'') = length ''ab''"
    by (intro exI [of _ ds] conjI e mem mem' len)
  from code [rule_format, OF mem'] have upper: "\<forall>i<length ''C''.
      (of_char (lower ''C'' ! i) :: nat) =
        (if 65 \<le> (of_char (''C'' ! i) :: nat) \<and> (of_char (''C'' ! i) :: nat) \<le> 90
         then of_char (''C'' ! i) + 32 else of_char (''C'' ! i))"
    by (simp only: prod.case)
  from upper [rule_format, OF pos]
  show "(of_char (lower ''C'' ! 0) :: nat) = of_char (''C'' ! 0) + 32"
    by simp
  from code [rule_format, OF mem] have same: "\<forall>i<length ''ab''.
      (of_char (lower ''ab'' ! i) :: nat) =
        (if 65 \<le> (of_char (''ab'' ! i) :: nat) \<and> (of_char (''ab'' ! i) :: nat) \<le> 90
         then of_char (''ab'' ! i) + 32 else of_char (''ab'' ! i))"
    by (simp only: prod.case)
  from same [rule_format, of 0]
  show "(of_char (lower ''ab'' ! 0) :: nat) = of_char (''ab'' ! 0)"
    by simp
qed

subsection \<open>Highest frequency\<close>

text \<open>
  C3: for every non-empty text \<open>calculate_highest_frequency\<close> returns the greatest count of
  the frequency map built from the text, and returns 0, raising nothing, when the map is
  empty, which is the case exactly when the text has no ASCII letter.
\<close>

theorem highest_frequency_is_max_count:
  assumes "s \<noteq> []"
  shows "\<exists>ws. extract_valid_words_from_text_and_convert_to_lower_case (PStr s) = Inr ws
     \<and> calculate_highest_frequency (PStr s) =
         Inr (if Counter ws = [] then 0 else Max (snd ` set (Counter ws)))
     \<and> (Counter ws = [] \<longleftrightarrow> (\<forall>c\<in>set s. \<not> is_ascii_letter c))"
proof (intro exI conjI)
  from assms show "extract_valid_words_from_text_and_convert_to_lower_case (PStr s) =
      Inr (map lower (findall_letters s))"
    by (simp add: extract_str)
  from assms show "calculate_highest_frequency (PStr s) =
      Inr (if Counter (map lower (findall_letters s)) = [] then 0
           else Max (snd ` set (Counter (map lower (findall_letters s)))))"
    by (rule highest_frequency_str)
  show "Counter (map lower (findall_letters s)) = [] \<longleftrightarrow> (\<forall>c\<in>set s. \<not> is_ascii_letter c)"
    by (simp add: Counter_Nil_iff findall_letters_Nil_iff)
qed

theorem highest_frequency_is_max_count_witness:
  "''abc def ghi ABC DEF'' \<noteq> []
   \<and> (\<exists>ws. extract_valid_words_from_text_and_convert_to_lower_case
              (PStr ''abc def ghi ABC DEF'') = Inr ws
     \<and> calculate_highest_frequency (PStr ''abc def ghi ABC DEF'') =
         Inr (if Counter ws = [] then 0 else Max (snd ` set (Counter ws)))
     \<and> (Counter ws = [] \<longleftrightarrow> (\<forall>c\<in>set ''abc def ghi ABC DEF''. \<not> is_ascii_letter c)))
   \<and> calculate_highest_frequency (PStr ''abc def ghi ABC DEF'') = Inr 2"
proof (intro conjI)
  show h: "''abc def ghi ABC DEF'' \<noteq> []" by simp
  show "\<exists>ws. extract_valid_words_from_text_and_convert_to_lower_case
              (PStr ''abc def ghi ABC DEF'') = Inr ws
     \<and> calculate_highest_frequency (PStr ''abc def ghi ABC DEF'') =
         Inr (if Counter ws = [] then 0 else Max (snd ` set (Counter ws)))
     \<and> (Counter ws = [] \<longleftrightarrow> (\<forall>c\<in>set ''abc def ghi ABC DEF''. \<not> is_ascii_letter c))"
    by (rule highest_frequency_is_max_count [OF h])
  show "calculate_highest_frequency (PStr ''abc def ghi ABC DEF'') = Inr 2"
    by code_simp
qed

subsection \<open>Frequency of a word\<close>

text \<open>
  C4: for every non-empty text and every string \<open>w\<close>, \<open>calculate_frequency_for_word\<close> looks
  \<open>w\<close> up as it is given: the result is the number of extracted (lowercased) words equal
  to \<open>w\<close> itself, which is the count stored for the key \<open>w\<close> in the frequency map and 0
  when \<open>w\<close> is not a key. The keys are lowercase, so a query that holds any character
  other than a lowercase ASCII letter, an uppercase letter in particular, yields 0.
\<close>

theorem frequency_for_word_exact_lookup:
  assumes "s \<noteq> []"
  shows "\<exists>ws. extract_valid_words_from_text_and_convert_to_lower_case (PStr s) = Inr ws
     \<and> calculate_frequency_for_word (PStr s) (PStr w) = Inr (int (count_list ws w))
     \<and> (\<forall>c. (w, c) \<in> set (Counter ws) \<longrightarrow>
           calculate_frequency_for_word (PStr s) (PStr w) = Inr c)
     \<and> (w \<notin> fst ` set (Counter ws) \<longrightarrow>
           calculate_frequency_for_word (PStr s) (PStr w) = Inr 0)
     \<and> (\<forall>k\<in>fst ` set (Counter ws). \<forall>ch\<in>set k. is_ascii_lower ch)
     \<and> ((\<exists>ch\<in>set w. \<not> is_ascii_lower ch) \<longrightarrow>
           calculate_frequency_for_word (PStr s) (PStr w) = Inr 0)
     \<and> ((\<exists>ch\<in>set w. is_ascii_upper ch) \<longrightarrow>
           calculate_frequency_for_word (PStr s) (PStr w) = Inr 0)"
proof (intro exI conjI)
  let ?ws = "map lower (findall_letters s)"
  from assms show "extract_valid_words_from_text_and_convert_to_lower_case (PStr s) = Inr ?ws"
    by (simp add: extract_str)
  from assms show f: "calculate_frequency_for_word (PStr s) (PStr w) = Inr (int (count_list ?ws w))"
    by (rule frequency_for_word_str)
  show "\<forall>c. (w, c) \<in> set (Counter ?ws) \<longrightarrow>
      calculate_frequency_for_word (PStr s) (PStr w) = Inr c"
    using Counter_entry(1) [of w _ ?ws] by (simp add: f)
  have keys: "fst ` set (Counter ?ws) = set ?ws"
    using Counter_keys [of ?ws] by simp
  have absent: "w \<notin> set ?ws \<Longrightarrow> calculate_frequency_for_word (PStr s) (PStr w) = Inr 0"
    by (simp add: f)
  from absent show "w \<notin> fst ` set (Counter ?ws) \<longrightarrow>
      calculate_frequency_for_word (PStr s) (PStr w) = Inr 0"
    by (simp only: keys) blast
  show "\<forall>k\<in>fst ` set (Counter ?ws). \<forall>ch\<in>set k. is_ascii_lower ch"
    unfolding keys using extracted_word [of _ s] by blast
  have other: "\<exists>ch\<in>set w. \<not> is_ascii_lower ch \<Longrightarrow>
      calculate_frequency_for_word (PStr s) (PStr w) = Inr 0"
  proof -
    assume "\<exists>ch\<in>set w. \<not> is_ascii_lower ch"
    then have "w \<notin> set ?ws"
      using extracted_word [of w s] by blast
    then show "calculate_frequency_for_word (PStr s) (PStr w) = Inr 0"
      by (rule absent)
  qed
  from other show "(\<exists>ch\<in>set w. \<not> is_ascii_lower ch) \<longrightarrow>
      calculate_frequency_for_word (PStr s) (PStr w) = Inr 0"
    by (rule impI)
  show "(\<exists>ch\<in>set w. is_ascii_upper ch) \<longrightarrow>
      calculate_frequency_for_word (PStr s) (PStr w) = Inr 0"
  proof
    assume "\<exists>ch\<in>set w. is_ascii_upper ch"
    then have "\<exists>ch\<in>set w. \<not> is_ascii_lower ch"
      using not_lower_and_upper by blast
    then show "calculate_frequency_for_word (PStr s) (PStr w) = Inr 0"
      by (rule other)
  qed
qed

theorem frequency_for_word_exact_lookup_witness:
  "''The sun shines over the lake'' \<noteq> []
   \<and> (\<exists>ch\<in>set ''The''. is_ascii_upper ch)
   \<and> calculate_frequency_for_word (PStr ''The sun shines over the lake'') (PStr ''The'') = Inr 0"
proof (intro conjI)
  show h: "''The sun shines over the lake'' \<noteq> []" by simp
  show u: "\<exists>ch\<in>set ''The''. is_ascii_upper ch"
    by (simp add: is_ascii_upper_def)
  from frequency_for_word_exact_lookup [OF h, of "''The''"] u
  show "calculate_frequency_for_word (PStr ''The sun shines over the lake'') (PStr ''The'') = Inr 0"
    by blast
qed

subsection \<open>Empty input\<close>

text \<open>
  C5, with the precedence of the type check made explicit: \<open>calculate_highest_frequency\<close> raises \<^verbatim>\<open>ValueError\<close> exactly when the
  text is the empty string; \<open>calculate_frequency_for_word\<close> and
  \<open>calculate_most_frequent_n_words\<close> raise it exactly when the text is the empty string and
  the second argument has its required type (the type check of the second argument comes
  first). A non-empty text without ASCII letters is no error: the results are 0, 0 and the
  empty list.
\<close>

theorem empty_input_raised:
  "(is_ValueError (calculate_highest_frequency input) \<longleftrightarrow> input = PStr [])
   \<and> (is_ValueError (calculate_frequency_for_word input word) \<longleftrightarrow>
        input = PStr [] \<and> isinstance_str word)
   \<and> (is_ValueError (calculate_most_frequent_n_words input n) \<longleftrightarrow>
        input = PStr [] \<and> isinstance_int n)
   \<and> (s \<noteq> [] \<and> (\<forall>c\<in>set s. \<not> is_ascii_letter c) \<longrightarrow>
        calculate_highest_frequency (PStr s) = Inr 0
        \<and> calculate_frequency_for_word (PStr s) (PStr w) = Inr 0
        \<and> (isinstance_int k \<longrightarrow> calculate_most_frequent_n_words (PStr s) k = Inr []))"
proof (intro conjI impI)
  show "is_ValueError (calculate_highest_frequency input) \<longleftrightarrow> input = PStr []"
    by (rule highest_frequency_ValueError)
  show "is_ValueError (calculate_frequency_for_word input word) \<longleftrightarrow>
      input = PStr [] \<and> isinstance_str word"
    by (rule frequency_for_word_ValueError)
  show "is_ValueError (calculate_most_frequent_n_words input n) \<longleftrightarrow>
      input = PStr [] \<and> isinstance_int n"
    by (rule most_frequent_n_words_ValueError)
next
  assume a: "s \<noteq> [] \<and> (\<forall>c\<in>set s. \<not> is_ascii_letter c)"
  then have none: "findall_letters s = []"
    by (simp add: findall_letters_Nil_iff)
  from a none show "calculate_highest_frequency (PStr s) = Inr 0"
    by (simp add: highest_frequency_str Counter_def)
  from a none show "calculate_frequency_for_word (PStr s) (PStr w) = Inr 0"
    by (simp add: frequency_for_word_str)
  assume "isinstance_int k"
  with a none show "calculate_most_frequent_n_words (PStr s) k = Inr []"
    by (simp add: most_frequent_n_words_int Counter_def ranking_def sorted_py_def slice_to_def)
qed

theorem empty_input_raised_witness:
  "is_ValueError (calculate_highest_frequency (PStr []))
   \<and> isinstance_str (PStr ''test'')
   \<and> is_ValueError (calculate_frequency_for_word (PStr []) (PStr ''test''))
   \<and> isinstance_int (PInt 2)
   \<and> is_ValueError (calculate_most_frequent_n_words (PStr []) (PInt 2))
   \<and> ''789 :.,/ 099*** %$# @56'' \<noteq> []
   \<and> \<not> (\<exists>c\<in>set ''789 :.,/ 099*** %$# @56''. is_ascii_letter c)
   \<and> calculate_highest_frequency (PStr ''789 :.,/ 099*** %$# @56'') = Inr 0
   \<and> calculate_frequency_for_word (PStr ''789 :.,/ 099*** %$# @56'') (PStr ''testWord'') = Inr 0
   \<and> isinstance_int (PInt 4)
   \<and> calculate_most_frequent_n_words (PStr ''789 :.,/ 099*** %$# @56'') (PInt 4) = Inr []"
proof -
  have sep: "\<forall>c\<in>set ''789 :.,/ 099*** %$# @56''. \<not> is_ascii_letter c"
    by (simp add: is_ascii_letter_def)
  have ne: "''789 :.,/ 099*** %$# @56'' \<noteq> []"
    by simp
  have i: "isinstance_str (PStr ''test'')" "isinstance_int (PInt 2)" "isinstance_int (PInt 4)"
    by simp_all
  from empty_input_raised [where input = "PStr []" and word = "PStr ''test''" and n = "PInt 2"
      and s = "''789 :.,/ 099*** %$# @56''" and w = "''testWord''" and k = "PInt 4"]
    sep ne i
  show ?thesis
    by blast
qed

text \<open>
  With the empty string as text and a word that is not a string, the error raised is the
  \<^verbatim>\<open>TypeError\<close> of the word, not \<^verbatim>\<open>ValueError\<close>.
\<close>

theorem empty_input_counterexample:
  "calculate_frequency_for_word (PStr []) (PInt 6) =
     Inl (TypeError ''Invalid input: word should be a string'')
   \<and> \<not> is_ValueError (calculate_frequency_for_word (PStr []) (PInt 6))"
  by (simp add: calculate_frequency_for_word_def)

subsection \<open>Invalid types\<close>

text \<open>
  C6: each operation raises \<^verbatim>\<open>TypeError\<close> whenever an argument has the wrong type, and
  the message names the argument and the type expected: a text that is not a \<^verbatim>\<open>str\<close> in
  all three operations, a word that is not a \<^verbatim>\<open>str\<close>, an \<open>n\<close> that is not an \<^verbatim>\<open>int\<close> (a
  Python \<^verbatim>\<open>bool\<close> is an \<^verbatim>\<open>int\<close>). The error depends on the types of the arguments
  alone, so nothing of the text is processed before it. When both arguments are wrong,
  the error is the one of the second argument.
\<close>

theorem invalid_type_raised:
  "(\<not> isinstance_str input \<longrightarrow>
      calculate_highest_frequency input =
        Inl (TypeError ''Invalid input text: Input text should be a string''))
   \<and> (\<not> isinstance_str word \<longrightarrow>
      calculate_frequency_for_word input word =
        Inl (TypeError ''Invalid input: word should be a string''))
   \<and> (isinstance_str word \<and> \<not> isinstance_str input \<longrightarrow>
      calculate_frequency_for_word input word =
        Inl (TypeError ''Invalid input text: Input text should be a string''))
   \<and> (\<not> isinstance_int n \<longrightarrow>
      calculate_most_frequent_n_words input n =
        Inl (TypeError ''Invalid input: n should be an integer''))
   \<and> (isinstance_int n \<and> \<not> isinstance_str input \<longrightarrow>
      calculate_most_frequent_n_words input n =
        Inl (TypeError ''Invalid input text: Input text should be a string''))"
proof (intro conjI impI)
  assume "\<not> isinstance_str input"
  then show "calculate_highest_frequency input =
      Inl (TypeError ''Invalid input text: Input text should be a string'')"
    by (simp add: calculate_highest_frequency_def extract_not_str)
next
  assume "\<not> isinstance_str word"
  then show "calculate_frequency_for_word input word =
      Inl (TypeError ''Invalid input: word should be a string'')"
    by (simp add: calculate_frequency_for_word_def)
next
  assume "isinstance_str word \<and> \<not> isinstance_str input"
  then show "calculate_frequency_for_word input word =
      Inl (TypeError ''Invalid input text: Input text should be a string'')"
    by (simp add: calculate_frequency_for_word_def extract_not_str)
next
  assume "\<not> isinstance_int n"
  then show "calculate_most_frequent_n_words input n =
      Inl (TypeError ''Invalid input: n should be an integer'')"
    by (simp add: calculate_most_frequent_n_words_def)
next
  assume "isinstance_int n \<and> \<not> isinstance_str input"
  then show "calculate_most_frequent_n_words input n =
      Inl (TypeError ''Invalid input text: Input text should be a string'')"
    by (simp add: calculate_most_frequent_n_words_def extract_not_str)
qed

theorem invalid_type_raised_witness:
  "\<not> isinstance_str (PInt 6)
   \<and> calculate_highest_frequency (PInt 6) =
        Inl (TypeError ''Invalid input text: Input text should be a string'')
   \<and> calculate_frequency_for_word (PStr ''Test text'') (PInt 6) =
        Inl (TypeError ''Invalid input: word should be a string'')
   \<and> isinstance_str (PStr ''test'') \<and> \<not> isinstance_str PNone
   \<and> calculate_frequency_for_word PNone (PStr ''test'') =
        Inl (TypeError ''Invalid input text: Input text should be a string'')
   \<and> \<not> isinstance_int (PStr ''test'')
   \<and> calculate_most_frequent_n_words (PStr ''test text'') (PStr ''test'') =
        Inl (TypeError ''Invalid input: n should be an integer'')
   \<and> isinstance_int (PInt 2) \<and> \<not> isinstance_str (PInt 100)
   \<and> calculate_most_frequent_n_words (PInt 100) (PInt 2) =
        Inl (TypeError ''Invalid input text: Input text should be a string'')"
proof (intro conjI)
  show six: "\<not> isinstance_str (PInt 6)" by simp
  show test: "isinstance_str (PStr ''test'')" by simp
  show none: "\<not> isinstance_str PNone" by simp
  show n_str: "\<not> isinstance_int (PStr ''test'')" by simp
  show two: "isinstance_int (PInt 2)" by simp
  show hundred: "\<not> isinstance_str (PInt 100)" by simp
  show "calculate_highest_frequency (PInt 6) =
      Inl (TypeError ''Invalid input text: Input text should be a string'')"
    by (rule invalid_type_raised [where input = "PInt 6" and word = "PInt 6" and n = "PInt 2",
          THEN conjunct1, THEN mp, OF six])
  show "calculate_frequency_for_word (PStr ''Test text'') (PInt 6) =
      Inl (TypeError ''Invalid input: word should be a string'')"
    by (rule invalid_type_raised
          [where input = "PStr ''Test text''" and word = "PInt 6" and n = "PInt 2",
          THEN conjunct2, THEN conjunct1, THEN mp, OF six])
  show "calculate_frequency_for_word PNone (PStr ''test'') =
      Inl (TypeError ''Invalid input text: Input text should be a string'')"
    by (rule invalid_type_raised
          [where input = PNone and word = "PStr ''test''" and n = "PInt 2",
          THEN conjunct2, THEN conjunct2, THEN conjunct1, THEN mp, OF conjI [OF test none]])
  show "calculate_most_frequent_n_words (PStr ''test text'') (PStr ''test'') =
      Inl (TypeError ''Invalid input: n should be an integer'')"
    by (rule invalid_type_raised
          [where input = "PStr ''test text''" and word = "PStr ''test''" and n = "PStr ''test''",
          THEN conjunct2, THEN conjunct2, THEN conjunct2, THEN conjunct1, THEN mp, OF n_str])
  show "calculate_most_frequent_n_words (PInt 100) (PInt 2) =
      Inl (TypeError ''Invalid input text: Input text should be a string'')"
    by (rule invalid_type_raised
          [where input = "PInt 100" and word = "PStr ''test''" and n = "PInt 2",
          THEN conjunct2, THEN conjunct2, THEN conjunct2, THEN conjunct2, THEN mp,
          OF conjI [OF two hundred]])
qed

subsection \<open>Zero and negative n\<close>

text \<open>
  C7, for the slice that the code takes: for every non-empty text, \<open>calculate_most_frequent_n_words\<close> returns the
  empty list for \<open>n = 0\<close>; for a negative \<open>n\<close> it returns the ranked list without its last
  \<open>- n\<close> entries, which is the empty list exactly when \<open>- n\<close> is at least the number of
  distinct words.
\<close>

theorem most_frequent_n_words_nonpositive:
  assumes "s \<noteq> []" and "n \<le> 0"
  shows "\<exists>ws full.
       extract_valid_words_from_text_and_convert_to_lower_case (PStr s) = Inr ws
     \<and> set full = set (Counter ws) \<and> distinct full \<and> length full = card (set ws)
     \<and> sorted_wrt ranks_before full
     \<and> calculate_most_frequent_n_words (PStr s) (PInt n) =
         Inr (if n = 0 then [] else take (length full - nat (- n)) full)
     \<and> (calculate_most_frequent_n_words (PStr s) (PInt n) = Inr [] \<longleftrightarrow>
         n = 0 \<or> int (length full) \<le> - n)"
proof (intro exI conjI)
  let ?ws = "map lower (findall_letters s)"
  let ?full = "ranking (Counter ?ws)"
  from assms(1) show "extract_valid_words_from_text_and_convert_to_lower_case (PStr s) = Inr ?ws"
    by (simp add: extract_str)
  show "set ?full = set (Counter ?ws)"
    by (rule set_ranking)
  show "distinct ?full"
    by (simp add: distinct_ranking Counter_distinct_pairs)
  show "length ?full = card (set ?ws)"
    by (simp only: length_ranking Counter_length)
  show "sorted_wrt ranks_before ?full"
    by (rule sorted_ranking) (rule Counter_distinct_pairs)
  from assms(2) have t: "slice_to ?full n =
      (if n = 0 then [] else take (length ?full - nat (- n)) ?full)"
    by (simp add: slice_to_take)
  show m: "calculate_most_frequent_n_words (PStr s) (PInt n) =
      Inr (if n = 0 then [] else take (length ?full - nat (- n)) ?full)"
    using most_frequent_n_words_str [OF assms(1), of n] by (simp only: t)
  from assms(2) show "calculate_most_frequent_n_words (PStr s) (PInt n) = Inr [] \<longleftrightarrow>
      n = 0 \<or> int (length ?full) \<le> - n"
    unfolding m by (auto simp: take_eq_Nil)
qed

theorem most_frequent_n_words_nonpositive_witness:
  "''a b'' \<noteq> [] \<and> (- 1 :: int) \<le> 0
   \<and> (\<exists>ws full.
       extract_valid_words_from_text_and_convert_to_lower_case (PStr ''a b'') = Inr ws
     \<and> set full = set (Counter ws) \<and> distinct full \<and> length full = card (set ws)
     \<and> sorted_wrt ranks_before full
     \<and> calculate_most_frequent_n_words (PStr ''a b'') (PInt (- 1)) =
         Inr (if (- 1 :: int) = 0 then [] else take (length full - nat (- (- 1))) full)
     \<and> (calculate_most_frequent_n_words (PStr ''a b'') (PInt (- 1)) = Inr [] \<longleftrightarrow>
         (- 1 :: int) = 0 \<or> int (length full) \<le> - (- 1)))"
proof (intro conjI)
  show h: "''a b'' \<noteq> []" by simp
  show n: "(- 1 :: int) \<le> 0" by simp
  show "\<exists>ws full.
       extract_valid_words_from_text_and_convert_to_lower_case (PStr ''a b'') = Inr ws
     \<and> set full = set (Counter ws) \<and> distinct full \<and> length full = card (set ws)
     \<and> sorted_wrt ranks_before full
     \<and> calculate_most_frequent_n_words (PStr ''a b'') (PInt (- 1)) =
         Inr (if (- 1 :: int) = 0 then [] else take (length full - nat (- (- 1))) full)
     \<and> (calculate_most_frequent_n_words (PStr ''a b'') (PInt (- 1)) = Inr [] \<longleftrightarrow>
         (- 1 :: int) = 0 \<or> int (length full) \<le> - (- 1))"
    by (rule most_frequent_n_words_nonpositive [OF h n])
qed

text \<open>
  With two distinct words and \<open>n = - 1\<close> the result is the first entry of the ranking,
  not the empty list.
\<close>

theorem most_frequent_n_words_negative_counterexample:
  "(- 1 :: int) \<le> 0
   \<and> calculate_most_frequent_n_words (PStr ''a b'') (PInt (- 1)) = Inr [(''a'', 1)]
   \<and> calculate_most_frequent_n_words (PStr ''a b'') (PInt (- 1)) \<noteq> Inr []"
proof -
  have "calculate_most_frequent_n_words (PStr ''a b'') (PInt (- 1)) = Inr [(''a'', 1)]"
    by code_simp
  then show ?thesis
    by simp
qed

subsection \<open>Invariants of the frequency map\<close>

text \<open>
  C8: for every non-empty text the frequency map \<open>Counter ws\<close> that the three operations
  build from the extracted words \<open>ws\<close> has non-empty keys of lowercase ASCII letters only,
  every stored count is at least 1, the keys are unique, and the counts add up to the
  number of extracted words.
\<close>

theorem frequency_map_invariants:
  assumes "s \<noteq> []"
  shows "\<exists>ws. extract_valid_words_from_text_and_convert_to_lower_case (PStr s) = Inr ws
     \<and> (\<forall>(k, c)\<in>set (Counter ws). k \<noteq> [] \<and> (\<forall>ch\<in>set k. is_ascii_lower ch) \<and> 1 \<le> c)
     \<and> distinct (map fst (Counter ws))
     \<and> sum_list (map snd (Counter ws)) = int (length ws)"
proof (intro exI conjI)
  let ?ws = "map lower (findall_letters s)"
  from assms show "extract_valid_words_from_text_and_convert_to_lower_case (PStr s) = Inr ?ws"
    by (simp add: extract_str)
  show "\<forall>(k, c)\<in>set (Counter ?ws). k \<noteq> [] \<and> (\<forall>ch\<in>set k. is_ascii_lower ch) \<and> 1 \<le> c"
  proof (clarify, intro conjI)
    fix k c
    assume kc: "(k, c) \<in> set (Counter ?ws)"
    then have "k \<in> set ?ws"
      by (rule Counter_entry)
    then have w: "k \<noteq> [] \<and> (\<forall>ch\<in>set k. is_ascii_lower ch)"
      by (rule extracted_word)
    from w show "k \<noteq> []" ..
    from w show "\<forall>ch\<in>set k. is_ascii_lower ch" ..
    from kc show "1 \<le> c"
      by (rule Counter_entry)
  qed
  show "distinct (map fst (Counter ?ws))"
    by (rule Counter_distinct)
  show "sum_list (map snd (Counter ?ws)) = int (length ?ws)"
    by (rule Counter_sum)
qed

theorem frequency_map_invariants_witness:
  "''The sun shines over the lake'' \<noteq> []
   \<and> (\<exists>ws. extract_valid_words_from_text_and_convert_to_lower_case
              (PStr ''The sun shines over the lake'') = Inr ws
     \<and> (\<forall>(k, c)\<in>set (Counter ws). k \<noteq> [] \<and> (\<forall>ch\<in>set k. is_ascii_lower ch) \<and> 1 \<le> c)
     \<and> distinct (map fst (Counter ws))
     \<and> sum_list (map snd (Counter ws)) = int (length ws))"
proof (rule conjI)
  show h: "''The sun shines over the lake'' \<noteq> []" by simp
  show "\<exists>ws. extract_valid_words_from_text_and_convert_to_lower_case
              (PStr ''The sun shines over the lake'') = Inr ws
     \<and> (\<forall>(k, c)\<in>set (Counter ws). k \<noteq> [] \<and> (\<forall>ch\<in>set k. is_ascii_lower ch) \<and> 1 \<le> c)
     \<and> distinct (map fst (Counter ws))
     \<and> sum_list (map snd (Counter ws)) = int (length ws)"
    by (rule frequency_map_invariants [OF h])
qed

subsection \<open>Lookup against the ranking\<close>

text \<open>
  C9: for every non-empty text, every \<open>n\<close> that is at least the number of distinct words
  and every word \<open>w\<close> (lowercase or not), \<open>calculate_most_frequent_n_words\<close> returns the
  whole ranking, in which every word occurs once, and \<open>calculate_frequency_for_word\<close>
  returns the count paired with \<open>w\<close> there, and 0 when \<open>w\<close> does not occur in it.
\<close>

theorem frequency_for_word_agrees_with_ranking:
  assumes "s \<noteq> []"
  shows "\<exists>ws. extract_valid_words_from_text_and_convert_to_lower_case (PStr s) = Inr ws
     \<and> (int (card (set ws)) \<le> n \<longrightarrow>
          (\<exists>full. calculate_most_frequent_n_words (PStr s) (PInt n) = Inr full
             \<and> length full = card (set ws)
             \<and> distinct (map fst full)
             \<and> (\<forall>c. (w, c) \<in> set full \<longrightarrow>
                   calculate_frequency_for_word (PStr s) (PStr w) = Inr c)
             \<and> (w \<notin> fst ` set full \<longrightarrow>
                   calculate_frequency_for_word (PStr s) (PStr w) = Inr 0)))"
proof (intro exI conjI impI)
  let ?ws = "map lower (findall_letters s)"
  let ?full = "ranking (Counter ?ws)"
  from assms show "extract_valid_words_from_text_and_convert_to_lower_case (PStr s) = Inr ?ws"
    by (simp add: extract_str)
  have len: "length ?full = card (set ?ws)"
    by (simp only: length_ranking Counter_length)
  assume "int (card (set ?ws)) \<le> n"
  with len have "slice_to ?full n = ?full"
    by (simp add: slice_to_take)
  then show "calculate_most_frequent_n_words (PStr s) (PInt n) = Inr ?full"
    using most_frequent_n_words_str [OF assms, of n] by simp
  show "length ?full = card (set ?ws)"
    by (rule len)
  show "distinct (map fst ?full)"
    by (rule distinct_keys_ranking) (rule Counter_distinct)
  from assms have f: "calculate_frequency_for_word (PStr s) (PStr w) =
      Inr (int (count_list ?ws w))"
    by (rule frequency_for_word_str)
  show "\<forall>c. (w, c) \<in> set ?full \<longrightarrow> calculate_frequency_for_word (PStr s) (PStr w) = Inr c"
    using Counter_entry(1) [of w _ ?ws] by (simp add: f set_ranking)
  have "fst ` set ?full = set ?ws"
    using Counter_keys [of ?ws] by (simp add: set_ranking)
  then show "w \<notin> fst ` set ?full \<Longrightarrow> calculate_frequency_for_word (PStr s) (PStr w) = Inr 0"
    by (simp add: f)
qed

theorem frequency_for_word_agrees_with_ranking_witness:
  "''b a b'' \<noteq> []
   \<and> extract_valid_words_from_text_and_convert_to_lower_case (PStr ''b a b'') =
       Inr [''b'', ''a'', ''b'']
   \<and> int (card (set [''b'', ''a'', ''b''])) \<le> 2
   \<and> calculate_most_frequent_n_words (PStr ''b a b'') (PInt 2) = Inr [(''b'', 2), (''a'', 1)]
   \<and> calculate_frequency_for_word (PStr ''b a b'') (PStr ''b'') = Inr 2"
proof (intro conjI)
  show h: "''b a b'' \<noteq> []" by simp
  show e0: "extract_valid_words_from_text_and_convert_to_lower_case (PStr ''b a b'') =
      Inr [''b'', ''a'', ''b'']"
    by code_simp
  show c: "int (card (set [''b'', ''a'', ''b''])) \<le> 2"
    by (simp only: List.card_set) simp
  show m0: "calculate_most_frequent_n_words (PStr ''b a b'') (PInt 2) =
      Inr [(''b'', 2), (''a'', 1)]"
    by code_simp
  from frequency_for_word_agrees_with_ranking [OF h, of 2 "''b''"] obtain ws
    where e: "extract_valid_words_from_text_and_convert_to_lower_case (PStr ''b a b'') = Inr ws"
      and imp: "int (card (set ws)) \<le> 2 \<longrightarrow>
          (\<exists>full. calculate_most_frequent_n_words (PStr ''b a b'') (PInt 2) = Inr full
             \<and> length full = card (set ws)
             \<and> distinct (map fst full)
             \<and> (\<forall>c. (''b'', c) \<in> set full \<longrightarrow>
                   calculate_frequency_for_word (PStr ''b a b'') (PStr ''b'') = Inr c)
             \<and> (''b'' \<notin> fst ` set full \<longrightarrow>
                   calculate_frequency_for_word (PStr ''b a b'') (PStr ''b'') = Inr 0))"
    by blast
  from e e0 have "ws = [''b'', ''a'', ''b'']"
    by simp
  with imp c obtain full
    where m: "calculate_most_frequent_n_words (PStr ''b a b'') (PInt 2) = Inr full"
      and paired: "\<forall>c. (''b'', c) \<in> set full \<longrightarrow>
          calculate_frequency_for_word (PStr ''b a b'') (PStr ''b'') = Inr c"
    by blast
  from m m0 have "full = [(''b'', 2), (''a'', 1)]"
    by simp
  with paired [rule_format, of 2]
  show "calculate_frequency_for_word (PStr ''b a b'') (PStr ''b'') = Inr 2"
    by simp
qed

subsection \<open>Order of the checks\<close>

text \<open>
  C10: the type check of the second argument comes before the text is validated.
  Whatever the first argument is (a non-empty string, the empty string, not a string at
  all), \<open>calculate_frequency_for_word\<close> with a word that is not a \<^verbatim>\<open>str\<close> raises the
  \<^verbatim>\<open>TypeError\<close> of the word, and \<open>calculate_most_frequent_n_words\<close> with an \<open>n\<close> that is
  not an \<^verbatim>\<open>int\<close> raises the \<^verbatim>\<open>TypeError\<close> of \<open>n\<close>.
\<close>

theorem secondary_argument_checked_first:
  "(\<not> isinstance_str word \<longrightarrow>
      calculate_frequency_for_word input word =
        Inl (TypeError ''Invalid input: word should be a string''))
   \<and> (\<not> isinstance_int n \<longrightarrow>
      calculate_most_frequent_n_words input n =
        Inl (TypeError ''Invalid input: n should be an integer''))"
  by (simp add: calculate_frequency_for_word_def calculate_most_frequent_n_words_def)

theorem secondary_argument_checked_first_witness:
  "\<not> isinstance_str (PInt 6)
   \<and> calculate_frequency_for_word (PStr []) (PInt 6) =
        Inl (TypeError ''Invalid input: word should be a string'')
   \<and> \<not> isinstance_int (PStr ''test'')
   \<and> calculate_most_frequent_n_words PNone (PStr ''test'') =
        Inl (TypeError ''Invalid input: n should be an integer'')"
proof (intro conjI)
  show w: "\<not> isinstance_str (PInt 6)" by simp
  show n: "\<not> isinstance_int (PStr ''test'')" by simp
  from secondary_argument_checked_first
    [where word = "PInt 6" and input = "PStr []" and n = "PStr ''test''"] w
  show "calculate_frequency_for_word (PStr []) (PInt 6) =
      Inl (TypeError ''Invalid input: word should be a string'')"
    by blast
  from secondary_argument_checked_first
    [where word = "PInt 6" and input = PNone and n = "PStr ''test''"] n
  show "calculate_most_frequent_n_words PNone (PStr ''test'') =
      Inl (TypeError ''Invalid input: n should be an integer'')"
    by blast
qed

end
